theory Spec2Isabelle
  imports Main "HOL-Library.Word"
begin

section \<open>The Voting contract (src/contract.py) as a state machine\<close>

subsection \<open>Data\<close>

text \<open>
  \<open>UInt64\<close> values are 64-bit words, \<open>String\<close> values are byte strings. An account
  (the address in \<open>Txn.sender\<close>) is an opaque identity, taken as a natural number.
\<close>

type_synonym uint64 = "64 word"
type_synonym account = nat

text \<open>
  The fields of class \<open>Voting\<close>, in the order of their declaration. \<open>localState\<close> is
  the \<open>LocalState[UInt64]\<close> key of each account: \<open>None\<close> when the key is absent.
  \<open>opted\<close> is not a field of the class: it is the ledger's set of accounts that hold a
  local-state slot of this application.
\<close>

record state =
  title :: string
  description :: string
  noOfOptions :: uint64
  option1 :: string
  option2 :: string
  option3 :: string
  option4 :: string
  option1Votes :: uint64
  option2Votes :: uint64
  option3Votes :: uint64
  option4Votes :: uint64
  startsAt :: uint64
  endsAt :: uint64
  vote_status :: uint64
  localState :: "account \<rightharpoonup> uint64"
  opted :: "account set"

text \<open>What the handlers read of the transaction: \<open>Txn.sender\<close> and \<open>Global.latest_timestamp\<close>.\<close>

record txn =
  sender :: account
  latest_timestamp :: uint64

text \<open>
  Every way a call is rejected. The first seven are the \<open>assert\<close>s of the source, in the
  order of the source; \<open>NotOptedIn\<close> is the local-state access for an account without a
  slot; \<open>ArithOverflow\<close> is the \<open>UInt64\<close> addition that exceeds 64 bits (it fails, it
  does not wrap); \<open>ExitZero\<close> is \<open>op.exit(0)\<close>.
\<close>

datatype error =
    AlreadyCreated
  | InvalidOptionCount
  | InvalidDeadline
  | VotingEnded
  | VotingNotStarted
  | InvalidOption
  | AlreadyVoted
  | NotOptedIn
  | ArithOverflow
  | ExitZero

subsection \<open>Operations\<close>

text \<open>\<open>__init__\<close>: every field empty or zero, no account holds a slot.\<close>

definition init :: state where
  "init = \<lparr> title = [], description = [], noOfOptions = 0,
      option1 = [], option2 = [], option3 = [], option4 = [],
      option1Votes = 0, option2Votes = 0, option3Votes = 0, option4Votes = 0,
      startsAt = 0, endsAt = 0, vote_status = 0,
      localState = Map.empty, opted = {} \<rparr>"

text \<open>The arguments of \<open>create_vote\<close>, named as its parameters are.\<close>

record create_args =
  a_title :: string
  a_description :: string
  a_noOfOptions :: uint64
  a_option1 :: string
  a_option2 :: string
  a_option3 :: string
  a_option4 :: string
  a_endsAt :: uint64

definition create_vote :: "txn \<Rightarrow> create_args \<Rightarrow> state \<Rightarrow> error + state" where
  "create_vote t a s =
     (if \<not> vote_status s = 0 then Inl AlreadyCreated
      else if \<not> (a_noOfOptions a \<ge> 2 \<and> a_noOfOptions a \<le> 4) then Inl InvalidOptionCount
      else if \<not> latest_timestamp t < a_endsAt a then Inl InvalidDeadline
      else Inr (s\<lparr> title := a_title a,
                   description := a_description a,
                   noOfOptions := a_noOfOptions a,
                   option1 := a_option1 a,
                   option2 := a_option2 a,
                   option3 := a_option3 a,
                   option4 := a_option4 a,
                   option1Votes := 0,
                   option2Votes := 0,
                   option3Votes := 0,
                   option4Votes := 0,
                   startsAt := latest_timestamp t,
                   endsAt := a_endsAt a,
                   vote_status := 1 \<rparr>))"

text \<open>\<open>x += 1\<close> on a \<open>UInt64\<close>: the addition fails when the result needs more than 64 bits.\<close>

definition incr :: "uint64 \<Rightarrow> error + uint64" where
  "incr x = (if unat x + 1 < 2 ^ 64 then Inr (x + 1) else Inl ArithOverflow)"

text \<open>
  \<open>vote\<close>. The three \<open>assert\<close>s on the window and the option come first, then
  \<open>self.localState.maybe(Txn.sender)\<close> and the \<open>assert\<close> on its result, then the write
  of the sender's key, then the \<open>if\<close>/\<open>elif\<close> chain on the option. The local state of
  an account without a slot cannot be read: that lookup is the point of failure of a
  caller that never opted in (section 4.1 of the specification, precondition 4).
\<close>

definition vote :: "txn \<Rightarrow> uint64 \<Rightarrow> state \<Rightarrow> error + state" where
  "vote t opt s =
     (if \<not> latest_timestamp t < endsAt s then Inl VotingEnded
      else if \<not> latest_timestamp t > startsAt s then Inl VotingNotStarted
      else if \<not> (opt \<ge> 1 \<and> opt \<le> noOfOptions s) then Inl InvalidOption
      else if sender t \<notin> opted s then Inl NotOptedIn
      else if localState s (sender t) \<noteq> None then Inl AlreadyVoted
      else
        let s1 = s\<lparr> localState := (localState s)(sender t \<mapsto> opt) \<rparr> in
        if opt = 1 then
          (case incr (option1Votes s1) of Inl e \<Rightarrow> Inl e
           | Inr v \<Rightarrow> Inr (s1\<lparr> option1Votes := v \<rparr>))
        else if opt = 2 then
          (case incr (option2Votes s1) of Inl e \<Rightarrow> Inl e
           | Inr v \<Rightarrow> Inr (s1\<lparr> option2Votes := v \<rparr>))
        else if opt = 3 then
          (case incr (option3Votes s1) of Inl e \<Rightarrow> Inl e
           | Inr v \<Rightarrow> Inr (s1\<lparr> option3Votes := v \<rparr>))
        else if opt = 4 then
          (case incr (option4Votes s1) of Inl e \<Rightarrow> Inl e
           | Inr v \<Rightarrow> Inr (s1\<lparr> option4Votes := v \<rparr>))
        else Inl ExitZero)"

text \<open>
  Modelled from the spec: the allocation of the caller's slot, which is the ledger's and
  not in the source (section 4.1, opt\_in: "allocates the caller's VoterRecord slot in its
  initial state if not already present"). The body of \<open>opt_in\<close> in the source is
  \<open>pass\<close>: it has no check and writes no field.
\<close>

definition opt_in :: "txn \<Rightarrow> state \<Rightarrow> error + state" where
  "opt_in t s = Inr (s\<lparr> opted := insert (sender t) (opted s) \<rparr>)"

subsection \<open>Calls and runs\<close>

datatype call = CreateVote create_args | Vote uint64 | OptIn

fun exec :: "txn \<Rightarrow> call \<Rightarrow> state \<Rightarrow> error + state" where
  "exec t (CreateVote a) s = create_vote t a s"
| "exec t (Vote opt) s = vote t opt s"
| "exec t OptIn s = opt_in t s"

text \<open>A rejected call leaves the state as it was: the ledger discards its writes.\<close>

definition step :: "txn \<Rightarrow> call \<Rightarrow> state \<Rightarrow> state" where
  "step t c s = (case exec t c s of Inl e \<Rightarrow> s | Inr s' \<Rightarrow> s')"

fun run :: "(txn \<times> call) list \<Rightarrow> state \<Rightarrow> state" where
  "run [] s = s"
| "run ((t, c) # cs) s = run cs (step t c s)"

inductive reachable :: "state \<Rightarrow> bool" where
  reach_init: "reachable init"
| reach_step: "reachable s \<Longrightarrow> reachable (step t c s)"

text \<open>The four tallies in order, and their sum as a number.\<close>

definition tallies :: "state \<Rightarrow> uint64 list" where
  "tallies s = [option1Votes s, option2Votes s, option3Votes s, option4Votes s]"

definition tally_sum :: "state \<Rightarrow> nat" where
  "tally_sum s = unat (option1Votes s) + unat (option2Votes s)
               + unat (option3Votes s) + unat (option4Votes s)"

subsection \<open>Invariant of the reachable states\<close>

text \<open>
  What every reachable state satisfies: finitely many accounts hold a key, the tallies
  add up to their number, only accounts with a slot hold a key, the status is 0 or 1,
  nothing has been written before creation, and a created poll has a non-empty window
  and two to four options.
\<close>

definition invar :: "state \<Rightarrow> bool" where
  "invar s \<longleftrightarrow>
     finite (dom (localState s)) \<and>
     tally_sum s = card (dom (localState s)) \<and>
     dom (localState s) \<subseteq> opted s \<and>
     (vote_status s = 0 \<or> vote_status s = 1) \<and>
     (vote_status s = 0 \<longrightarrow> endsAt s = 0 \<and> noOfOptions s = 0 \<and> localState s = Map.empty) \<and>
     (vote_status s = 1 \<longrightarrow> startsAt s < endsAt s \<and> 2 \<le> noOfOptions s \<and> noOfOptions s \<le> 4)"

subsection \<open>A concrete run\<close>

text \<open>
  Scenario A of the specification with now = 1000: account 1 creates a poll with two
  options that ends at 1100, account 7 opts in and votes for option 1 at 1050.
\<close>

definition demo_args :: create_args where
  "demo_args = \<lparr> a_title = ''Lunch'', a_description = ''Pizza today'', a_noOfOptions = 2,
      a_option1 = ''Yes'', a_option2 = ''No'', a_option3 = [], a_option4 = [],
      a_endsAt = 1100 \<rparr>"

definition demo_setup :: "(txn \<times> call) list" where
  "demo_setup = [(\<lparr>sender = 1, latest_timestamp = 1000\<rparr>, CreateVote demo_args),
                 (\<lparr>sender = 7, latest_timestamp = 1010\<rparr>, OptIn)]"

definition demo_calls :: "(txn \<times> call) list" where
  "demo_calls = demo_setup @ [(\<lparr>sender = 7, latest_timestamp = 1050\<rparr>, Vote 1)]"

text \<open>Afterwards account 8 opts in and votes for option 2.\<close>

definition demo_more :: "(txn \<times> call) list" where
  "demo_more = [(\<lparr>sender = 8, latest_timestamp = 1055\<rparr>, OptIn),
                (\<lparr>sender = 8, latest_timestamp = 1056\<rparr>, Vote 2)]"

subsection \<open>A run that fills a tally\<close>

text \<open>
  \<open>crowd n\<close> is the state after a poll with two options was created at time 0 with
  deadline 2 and the accounts \<open>0, \<dots>, n - 1\<close> each opted in and voted for option 1 at
  time 1. \<open>full_state\<close> is that state for \<open>n = 2\<^sup>6\<^sup>4 - 1\<close> after one more account
  has opted in.
\<close>

definition crowd :: "nat \<Rightarrow> state" where
  "crowd n = \<lparr> title = [], description = [], noOfOptions = 2,
      option1 = [], option2 = [], option3 = [], option4 = [],
      option1Votes = of_nat n, option2Votes = 0, option3Votes = 0, option4Votes = 0,
      startsAt = 0, endsAt = 2, vote_status = 1,
      localState = (\<lambda>a. if a < n then Some 1 else None), opted = {a. a < n} \<rparr>"

definition crowd_args :: create_args where
  "crowd_args = \<lparr> a_title = [], a_description = [], a_noOfOptions = 2,
      a_option1 = [], a_option2 = [], a_option3 = [], a_option4 = [], a_endsAt = 2 \<rparr>"

definition full_state :: state where
  "full_state = step \<lparr>sender = 18446744073709551615, latest_timestamp = 1\<rparr> OptIn
                  (crowd 18446744073709551615)"

section \<open>Basic facts\<close>

lemmas demo_defs = demo_calls_def demo_setup_def demo_args_def init_def step_def
  create_vote_def vote_def opt_in_def incr_def Let_def

lemma incr_Inr: "incr x = Inr v \<Longrightarrow> v = x + 1 \<and> unat v = unat x + 1"
  by (auto simp: incr_def unat_word_ariths split: if_splits)

lemma word_2_4: "(2 \<le> n \<and> n \<le> 4) = (n = 2 \<or> n = 3 \<or> n = (4::uint64))"
  by unat_arith

lemma word_1_4: "(1 \<le> n \<and> n \<le> 4) = (n = 1 \<or> n = 2 \<or> n = 3 \<or> n = (4::uint64))"
  by unat_arith

lemma reachable_run: "reachable s \<Longrightarrow> reachable (run cs s)"
  by (induction cs s rule: run.induct) (simp_all add: reach_step)

lemma demo_setup_state:
  "run demo_setup init = \<lparr> title = ''Lunch'', description = ''Pizza today'', noOfOptions = 2,
      option1 = ''Yes'', option2 = ''No'', option3 = [], option4 = [],
      option1Votes = 0, option2Votes = 0, option3Votes = 0, option4Votes = 0,
      startsAt = 1000, endsAt = 1100, vote_status = 1,
      localState = Map.empty, opted = {7} \<rparr>"
  by (simp add: demo_defs)

lemma demo_state:
  "run demo_calls init = \<lparr> title = ''Lunch'', description = ''Pizza today'', noOfOptions = 2,
      option1 = ''Yes'', option2 = ''No'', option3 = [], option4 = [],
      option1Votes = 1, option2Votes = 0, option3Votes = 0, option4Votes = 0,
      startsAt = 1000, endsAt = 1100, vote_status = 1,
      localState = [7 \<mapsto> 1], opted = {7} \<rparr>"
  by (simp add: demo_defs)

subsection \<open>What a successful vote did\<close>

lemma vote_Inr_pre:
  assumes "vote t opt s = Inr s'"
  shows "latest_timestamp t < endsAt s" "startsAt s < latest_timestamp t"
    "1 \<le> opt" "opt \<le> noOfOptions s" "sender t \<in> opted s" "localState s (sender t) = None"
    "opt = 1 \<or> opt = 2 \<or> opt = 3 \<or> opt = 4"
  using assms by (simp_all add: vote_def Let_def split: if_splits)

lemma vote_Inr_post:
  assumes "vote t opt s = Inr s'"
  shows "\<exists>v. s' = s\<lparr> localState := (localState s)(sender t \<mapsto> opt), option1Votes := v \<rparr>
            \<and> opt = 1 \<and> incr (option1Votes s) = Inr v
      \<or> s' = s\<lparr> localState := (localState s)(sender t \<mapsto> opt), option2Votes := v \<rparr>
            \<and> opt = 2 \<and> incr (option2Votes s) = Inr v
      \<or> s' = s\<lparr> localState := (localState s)(sender t \<mapsto> opt), option3Votes := v \<rparr>
            \<and> opt = 3 \<and> incr (option3Votes s) = Inr v
      \<or> s' = s\<lparr> localState := (localState s)(sender t \<mapsto> opt), option4Votes := v \<rparr>
            \<and> opt = 4 \<and> incr (option4Votes s) = Inr v"
  using assms by (simp add: vote_def Let_def split: if_splits sum.splits)

lemma vote_Inr_frame:
  assumes "vote t opt s = Inr s'"
  shows "title s' = title s" "description s' = description s" "noOfOptions s' = noOfOptions s"
    "option1 s' = option1 s" "option2 s' = option2 s" "option3 s' = option3 s"
    "option4 s' = option4 s" "startsAt s' = startsAt s" "endsAt s' = endsAt s"
    "vote_status s' = vote_status s" "opted s' = opted s"
    "localState s' = (localState s)(sender t \<mapsto> opt)"
  using vote_Inr_post [OF assms] by auto

lemma vote_Inr_tally_sum:
  assumes "vote t opt s = Inr s'"
  shows "tally_sum s' = tally_sum s + 1"
  using vote_Inr_post [OF assms] by (auto simp: tally_sum_def dest!: incr_Inr)

subsection \<open>The invariant holds in every reachable state\<close>

lemma invar_init: "invar init"
  by (simp add: invar_def init_def tally_sum_def)

lemma invar_create_vote:
  assumes "invar s" and "create_vote t a s = Inr s'"
  shows "invar s'"
  using assms
  by (auto simp: invar_def create_vote_def tally_sum_def split: if_splits)

lemma invar_opt_in:
  assumes "invar s" and "opt_in t s = Inr s'"
  shows "invar s'"
proof -
  from assms(2) have "s' = s\<lparr> opted := insert (sender t) (opted s) \<rparr>"
    by (simp add: opt_in_def)
  with assms(1) show ?thesis
    by (simp add: invar_def tally_sum_def subset_insertI2)
qed

lemma invar_vote:
  assumes "invar s" and v: "vote t opt s = Inr s'"
  shows "invar s'"
proof -
  note fr = vote_Inr_frame [OF v] and pre = vote_Inr_pre [OF v]
  have d: "dom (localState s') = insert (sender t) (dom (localState s))"
    by (simp add: fr)
  have n: "sender t \<notin> dom (localState s)"
    using pre(6) by (simp add: domIff)
  have fin: "finite (dom (localState s))"
    using assms(1) by (simp add: invar_def)
  have c: "card (insert (sender t) (dom (localState s))) = Suc (card (dom (localState s)))"
    using fin n by simp
  have vs: "vote_status s = 1"
    using assms(1) pre(1) by (auto simp: invar_def)
  show ?thesis
    using assms(1) pre(5) vs
    by (simp add: invar_def c vote_Inr_tally_sum [OF v] fr(3,8,9,10,11) d fin
        del: dom_fun_upd)
qed

lemma invar_step: "invar s \<Longrightarrow> invar (step t c s)"
  by (cases c) (auto simp: step_def split: sum.splits
      intro: invar_create_vote invar_vote invar_opt_in)

lemma reachable_invar: "reachable s \<Longrightarrow> invar s"
  by (induction rule: reachable.induct) (auto intro: invar_init invar_step)

text \<open>
  Outside the reachable states the last branch of \<open>vote\<close> can be taken: with
  \<open>noOfOptions\<close> set to 5, a vote for option 5 ends in \<open>op.exit(0)\<close>.
\<close>

lemma exit_branch_exists:
  "vote \<lparr>sender = 7, latest_timestamp = 1050\<rparr> 5 ((run demo_setup init)\<lparr>noOfOptions := 5\<rparr>)
     = Inl ExitZero"
  by (simp add: demo_setup_state vote_def)

text \<open>The tallies after a successful vote, as a list of numbers.\<close>

lemma vote_Inr_tallies:
  assumes "vote t opt s = Inr s'"
  shows "map unat (tallies s') =
     (map unat (tallies s))[unat opt - 1 := unat (tallies s ! (unat opt - 1)) + 1]"
  using vote_Inr_post [OF assms] by (auto simp: tallies_def dest!: incr_Inr)

subsection \<open>A created poll stays as it is\<close>

lemma created_step:
  assumes "vote_status s = 1"
  shows "vote_status (step t c s) = 1" "startsAt (step t c s) = startsAt s"
    "endsAt (step t c s) = endsAt s" "noOfOptions (step t c s) = noOfOptions s"
proof -
  have "vote_status (step t c s) = 1 \<and> startsAt (step t c s) = startsAt s
      \<and> endsAt (step t c s) = endsAt s \<and> noOfOptions (step t c s) = noOfOptions s"
  proof (cases c)
    case (CreateVote a)
    then show ?thesis using assms by (simp add: step_def create_vote_def)
  next
    case (Vote opt)
    then show ?thesis using assms
      by (auto simp: step_def split: sum.splits dest: vote_Inr_frame)
  next
    case OptIn
    then show ?thesis using assms by (simp add: step_def opt_in_def)
  qed
  then show "vote_status (step t c s) = 1" "startsAt (step t c s) = startsAt s"
    "endsAt (step t c s) = endsAt s" "noOfOptions (step t c s) = noOfOptions s"
    by simp_all
qed

lemma created_run:
  "vote_status s = 1 \<Longrightarrow>
   vote_status (run cs s) = 1 \<and> startsAt (run cs s) = startsAt s
   \<and> endsAt (run cs s) = endsAt s \<and> noOfOptions (run cs s) = noOfOptions s"
  by (induction cs s rule: run.induct) (simp_all add: created_step)

lemma create_vote_Inr:
  assumes "create_vote t a s = Inr s'"
  shows "vote_status s = 0" "2 \<le> a_noOfOptions a" "a_noOfOptions a \<le> 4"
    "latest_timestamp t < a_endsAt a"
    "s' = s\<lparr> title := a_title a, description := a_description a,
             noOfOptions := a_noOfOptions a, option1 := a_option1 a, option2 := a_option2 a,
             option3 := a_option3 a, option4 := a_option4 a,
             option1Votes := 0, option2Votes := 0, option3Votes := 0, option4Votes := 0,
             startsAt := latest_timestamp t, endsAt := a_endsAt a, vote_status := 1 \<rparr>"
  using assms by (simp_all add: create_vote_def split: if_splits)

subsection \<open>A recorded vote stays\<close>

lemma voted_step:
  assumes "localState s a = Some v" and "a \<in> opted s"
  shows "localState (step t c s) a = Some v \<and> a \<in> opted (step t c s)"
proof (cases c)
  case (CreateVote x)
  then show ?thesis
    using assms by (auto simp: step_def split: sum.splits dest: create_vote_Inr(5))
next
  case (Vote opt)
  show ?thesis
  proof (cases "vote t opt s")
    case (Inl e)
    then show ?thesis using assms Vote by (simp add: step_def)
  next
    case (Inr s')
    have "sender t \<noteq> a"
      using vote_Inr_pre(6) [OF Inr] assms(1) by auto
    then show ?thesis
      using assms Vote Inr by (simp add: step_def vote_Inr_frame [OF Inr])
  qed
next
  case OptIn
  then show ?thesis using assms by (simp add: step_def opt_in_def)
qed

lemma voted_run:
  "localState s a = Some v \<Longrightarrow> a \<in> opted s \<Longrightarrow>
   localState (run cs s) a = Some v \<and> a \<in> opted (run cs s)"
  by (induction cs s rule: run.induct) (simp_all add: voted_step)

subsection \<open>The filled tally is reachable\<close>

lemma crowd_0: "crowd 0 = step \<lparr>sender = 0, latest_timestamp = 0\<rparr> (CreateVote crowd_args) init"
  by (simp add: crowd_def crowd_args_def step_def create_vote_def init_def)

lemma crowd_Suc:
  assumes "Suc n < 2 ^ 64"
  shows "crowd (Suc n) = step \<lparr>sender = n, latest_timestamp = 1\<rparr> (Vote 1)
           (step \<lparr>sender = n, latest_timestamp = 1\<rparr> OptIn (crowd n))"
proof -
  have u: "unat (of_nat n :: uint64) = n"
    using assms by (simp add: unat_of_nat)
  have l: "(\<lambda>a. if a < Suc n then Some (1::uint64) else None)
      = (\<lambda>a. if a < n then Some 1 else None)(n \<mapsto> 1)"
    by (rule ext) auto
  have o: "{a. a < Suc n} = insert n {a. a < n}"
    by auto
  show ?thesis
    using assms
    by (simp add: crowd_def step_def opt_in_def vote_def incr_def Let_def u l o)
qed

lemma crowd_reachable: "n < 2 ^ 64 \<Longrightarrow> reachable (crowd n)"
proof (induction n)
  case 0
  show ?case by (simp only: crowd_0) (rule reach_step [OF reach_init])
next
  case (Suc n)
  then have "reachable (crowd n)" by simp
  then show ?case
    by (simp only: crowd_Suc [OF Suc.prems]) (intro reach_step)
qed

lemma full_state_reachable: "reachable full_state"
  unfolding full_state_def by (rule reach_step [OF crowd_reachable]) simp

lemma full_state_eq:
  "full_state = (crowd 18446744073709551615)\<lparr> opted := insert 18446744073709551615 {a. a < 18446744073709551615} \<rparr>"
  by (simp add: full_state_def step_def opt_in_def crowd_def)

section \<open>The claims\<close>

text \<open>
  C1 (tally conservation, I4 and P4). In every reachable state the four tallies, read as
  numbers, add up to the number of accounts whose local-state key is present, that is,
  of accounts that have voted.
\<close>

theorem tally_conservation:
  assumes "reachable s"
  shows "tally_sum s = card (dom (localState s))"
  using reachable_invar [OF assms] by (simp add: invar_def)

theorem tally_conservation_witness:
  "reachable (run demo_calls init) \<and> tally_sum (run demo_calls init) = 1
   \<and> card (dom (localState (run demo_calls init))) = 1"
proof -
  have r: "reachable (run demo_calls init)"
    by (rule reachable_run [OF reach_init])
  have "tally_sum (run demo_calls init) = 1"
    by (simp add: demo_state tally_sum_def)
  with r tally_conservation [OF r] show ?thesis by simp
qed

text \<open>
  C2 (single creation, I1 and P1). After one successful \<open>create_vote\<close>, whatever calls
  \<open>cs\<close> follow, the status is still 1 (Active), and every further \<open>create_vote\<close>,
  with any arguments \<open>a2\<close> and any transaction \<open>t2\<close>, fails with \<open>AlreadyCreated\<close> and
  leaves the state as it was. The successful call itself started from status 0.
\<close>

theorem create_vote_once:
  assumes "create_vote t a s = Inr s'"
  shows "vote_status s = 0 \<and> vote_status s' = 1
    \<and> vote_status (run cs s') = 1
    \<and> create_vote t2 a2 (run cs s') = Inl AlreadyCreated
    \<and> step t2 (CreateVote a2) (run cs s') = run cs s'"
proof -
  have s': "vote_status s' = 1"
    by (simp add: create_vote_Inr(5) [OF assms])
  have r: "vote_status (run cs s') = 1"
    using created_run [OF s'] by simp
  have f: "create_vote t2 a2 (run cs s') = Inl AlreadyCreated"
    using r by (simp add: create_vote_def)
  show ?thesis
    using create_vote_Inr(1) [OF assms] s' r f by (simp add: step_def)
qed

theorem create_vote_once_witness:
  "create_vote \<lparr>sender = 1, latest_timestamp = 1000\<rparr> demo_args init \<noteq> Inl AlreadyCreated
   \<and> create_vote \<lparr>sender = 2, latest_timestamp = 1060\<rparr> (demo_args\<lparr>a_noOfOptions := 9, a_endsAt := 5000\<rparr>)
        (run demo_calls init) = Inl AlreadyCreated"
proof -
  obtain s' where c: "create_vote \<lparr>sender = 1, latest_timestamp = 1000\<rparr> demo_args init = Inr s'"
    by (simp add: create_vote_def demo_args_def init_def)
  have r: "run demo_calls init = run (tl demo_calls) s'"
    using c by (simp add: demo_calls_def demo_setup_def step_def)
  show ?thesis
    using create_vote_once [OF c, of "tl demo_calls" "\<lparr>sender = 2, latest_timestamp = 1060\<rparr>"
        "demo_args\<lparr>a_noOfOptions := 9, a_endsAt := 5000\<rparr>"] c r
    by simp
qed

text \<open>
  C3 (window enforcement, I6 and P5), as amended. In a reachable state with a created poll:
  a vote at the time \<open>startsAt\<close> fails with \<open>VotingNotStarted\<close>; a vote at the time
  \<open>endsAt\<close> fails with \<open>VotingEnded\<close>; a vote strictly between the two, for an option
  from 1 to \<open>noOfOptions\<close>, by an account that has opted in and not voted, succeeds
  when the tally of that option is below \<open>2\<^sup>6\<^sup>4 - 1\<close>, and when that tally is
  \<open>2\<^sup>6\<^sup>4 - 1\<close> the increment overflows and the call is rejected, the state left as it
  was; and a vote that succeeds lies strictly between the two.
\<close>

theorem window_strict:
  assumes "reachable s" and "vote_status s = 1"
  shows "(latest_timestamp t = startsAt s \<longrightarrow> vote t opt s = Inl VotingNotStarted)
    \<and> (latest_timestamp t = endsAt s \<longrightarrow> vote t opt s = Inl VotingEnded)
    \<and> (startsAt s < latest_timestamp t \<and> latest_timestamp t < endsAt s
        \<and> 1 \<le> opt \<and> opt \<le> noOfOptions s
        \<and> sender t \<in> opted s \<and> localState s (sender t) = None
        \<and> unat (tallies s ! (unat opt - 1)) < 2 ^ 64 - 1
       \<longrightarrow> (\<exists>s'. vote t opt s = Inr s'))
    \<and> (startsAt s < latest_timestamp t \<and> latest_timestamp t < endsAt s
        \<and> 1 \<le> opt \<and> opt \<le> noOfOptions s
        \<and> sender t \<in> opted s \<and> localState s (sender t) = None
        \<and> unat (tallies s ! (unat opt - 1)) = 2 ^ 64 - 1
       \<longrightarrow> vote t opt s = Inl ArithOverflow \<and> step t (Vote opt) s = s)
    \<and> (\<forall>s'. vote t opt s = Inr s' \<longrightarrow>
          startsAt s < latest_timestamp t \<and> latest_timestamp t < endsAt s)"
proof -
  have w: "startsAt s < endsAt s" and n: "noOfOptions s \<le> 4"
    using reachable_invar [OF assms(1)] assms(2) by (simp_all add: invar_def)
  have a: "vote t opt s = Inl VotingNotStarted" if "latest_timestamp t = startsAt s"
    using that w by (simp add: vote_def)
  have b: "vote t opt s = Inl VotingEnded" if "latest_timestamp t = endsAt s"
    using that by (simp add: vote_def)
  have o: "opt = 1 \<or> opt = 2 \<or> opt = 3 \<or> opt = 4" if "1 \<le> opt" "opt \<le> noOfOptions s"
    using that n word_1_4 [of opt] by auto
  have c: "\<exists>s'. vote t opt s = Inr s'"
    if "startsAt s < latest_timestamp t" "latest_timestamp t < endsAt s"
      "1 \<le> opt" "opt \<le> noOfOptions s" "sender t \<in> opted s" "localState s (sender t) = None"
      "unat (tallies s ! (unat opt - 1)) < 2 ^ 64 - 1"
    using o [OF that(3,4)] that by (auto simp: vote_def incr_def tallies_def)
  have d: "vote t opt s = Inl ArithOverflow"
    if "startsAt s < latest_timestamp t" "latest_timestamp t < endsAt s"
      "1 \<le> opt" "opt \<le> noOfOptions s" "sender t \<in> opted s" "localState s (sender t) = None"
      "unat (tallies s ! (unat opt - 1)) = 2 ^ 64 - 1"
    using o [OF that(3,4)] that by (auto simp: vote_def incr_def tallies_def)
  have e: "step t (Vote opt) s = s" if "vote t opt s = Inl ArithOverflow"
    using that by (simp add: step_def)
  show ?thesis
    using a b c d e vote_Inr_pre(1,2) by blast
qed

theorem window_strict_witness:
  "reachable (run demo_setup init)
   \<and> vote \<lparr>sender = 7, latest_timestamp = 1000\<rparr> 1 (run demo_setup init) = Inl VotingNotStarted
   \<and> vote \<lparr>sender = 7, latest_timestamp = 1100\<rparr> 1 (run demo_setup init) = Inl VotingEnded
   \<and> (\<exists>s'. vote \<lparr>sender = 7, latest_timestamp = 1050\<rparr> 1 (run demo_setup init) = Inr s')
   \<and> step \<lparr>sender = 18446744073709551615, latest_timestamp = 1\<rparr> (Vote 1) full_state
       = full_state"
proof -
  have r: "reachable (run demo_setup init)"
    by (rule reachable_run [OF reach_init])
  have v: "vote_status (run demo_setup init) = 1"
    by (simp add: demo_setup_state)
  have f: "vote_status full_state = 1"
    by (simp add: full_state_eq crowd_def)
  have 1: "vote \<lparr>sender = 7, latest_timestamp = 1000\<rparr> 1 (run demo_setup init) = Inl VotingNotStarted
    \<and> vote \<lparr>sender = 7, latest_timestamp = 1100\<rparr> 1 (run demo_setup init) = Inl VotingEnded
    \<and> (\<exists>s'. vote \<lparr>sender = 7, latest_timestamp = 1050\<rparr> 1 (run demo_setup init) = Inr s')"
    using window_strict [OF r v, of "\<lparr>sender = 7, latest_timestamp = 1000\<rparr>" 1]
      window_strict [OF r v, of "\<lparr>sender = 7, latest_timestamp = 1100\<rparr>" 1]
      window_strict [OF r v, of "\<lparr>sender = 7, latest_timestamp = 1050\<rparr>" 1]
    by (simp add: demo_setup_state tallies_def)
  have 2: "step \<lparr>sender = 18446744073709551615, latest_timestamp = 1\<rparr> (Vote 1) full_state
      = full_state"
    using window_strict [OF full_state_reachable f,
        of "\<lparr>sender = 18446744073709551615, latest_timestamp = 1\<rparr>" 1]
    by (simp add: full_state_eq crowd_def tallies_def)
  show ?thesis
    using r 1 2 by simp
qed

text \<open>
  C3 as stated fails. In \<open>full_state\<close>, a reachable state with a created poll, the time 1
  is strictly inside the window, option 1 is valid, the sender has opted in and has not
  voted, yet the vote is rejected: the tally of option 1 is \<open>2\<^sup>6\<^sup>4 - 1\<close> and the
  increment overflows. (The calls that lead there carry the times 0, 1, 1, \<dots>, which
  never decrease.)
\<close>

theorem window_counterexample:
  "reachable full_state \<and> vote_status full_state = 1
   \<and> startsAt full_state < 1 \<and> 1 < endsAt full_state
   \<and> (1::uint64) \<le> 1 \<and> 1 \<le> noOfOptions full_state
   \<and> 18446744073709551615 \<in> opted full_state
   \<and> localState full_state 18446744073709551615 = None
   \<and> option1Votes full_state = 18446744073709551615
   \<and> vote \<lparr>sender = 18446744073709551615, latest_timestamp = 1\<rparr> 1 full_state = Inl ArithOverflow"
  using full_state_reachable
  by (simp add: full_state_eq crowd_def vote_def incr_def)

text \<open>
  C4 (one vote per account, I3 and P3), as amended. After an account's successful vote,
  whatever calls \<open>cs\<close> follow, a further vote by the same account with any option fails
  and leaves the state as it was, and the account's recorded option stays. The error is
  that of the first check that fails, in the order of the source: \<open>VotingEnded\<close>,
  \<open>VotingNotStarted\<close>, \<open>InvalidOption\<close>, and \<open>AlreadyVoted\<close> when those three checks
  pass.
\<close>

theorem second_vote_rejected:
  assumes "vote t opt s = Inr s1" and "sender t2 = sender t"
  shows "vote t2 opt2 (run cs s1) =
      (if \<not> latest_timestamp t2 < endsAt (run cs s1) then Inl VotingEnded
       else if \<not> startsAt (run cs s1) < latest_timestamp t2 then Inl VotingNotStarted
       else if \<not> (1 \<le> opt2 \<and> opt2 \<le> noOfOptions (run cs s1)) then Inl InvalidOption
       else Inl AlreadyVoted)
    \<and> step t2 (Vote opt2) (run cs s1) = run cs s1
    \<and> localState (run cs s1) (sender t) = Some opt"
proof -
  have "localState s1 (sender t) = Some opt" "sender t \<in> opted s1"
    using vote_Inr_pre(5) [OF assms(1)] by (simp_all add: vote_Inr_frame [OF assms(1)])
  then have k: "localState (run cs s1) (sender t2) = Some opt" "sender t2 \<in> opted (run cs s1)"
    using voted_run [of s1 "sender t" opt cs] assms(2) by simp_all
  have v: "vote t2 opt2 (run cs s1) =
      (if \<not> latest_timestamp t2 < endsAt (run cs s1) then Inl VotingEnded
       else if \<not> startsAt (run cs s1) < latest_timestamp t2 then Inl VotingNotStarted
       else if \<not> (1 \<le> opt2 \<and> opt2 \<le> noOfOptions (run cs s1)) then Inl InvalidOption
       else Inl AlreadyVoted)"
    using k by (simp add: vote_def)
  have "step t2 (Vote opt2) (run cs s1) = run cs s1"
    by (simp add: step_def v)
  with v k(1) assms(2) show ?thesis by simp
qed

theorem second_vote_rejected_witness:
  "vote \<lparr>sender = 7, latest_timestamp = 1060\<rparr> 2
     (run demo_more (run demo_calls init))
     = Inl AlreadyVoted
   \<and> tallies (run demo_more (run demo_calls init))
     = [1, 1, 0, 0]"
proof -
  have v: "vote \<lparr>sender = 7, latest_timestamp = 1050\<rparr> 1 (run demo_setup init)
      = Inr (run demo_calls init)"
    by (simp add: demo_setup_state demo_state vote_def incr_def)
  have r: "run demo_more (run demo_calls init)
      = \<lparr> title = ''Lunch'', description = ''Pizza today'', noOfOptions = 2,
      option1 = ''Yes'', option2 = ''No'', option3 = [], option4 = [],
      option1Votes = 1, option2Votes = 1, option3Votes = 0, option4Votes = 0,
      startsAt = 1000, endsAt = 1100, vote_status = 1,
      localState = [7 \<mapsto> 1, 8 \<mapsto> 2], opted = {8, 7} \<rparr>"
    by (simp add: demo_more_def demo_state step_def opt_in_def vote_def incr_def)
  show ?thesis
    using second_vote_rejected [OF v, of "\<lparr>sender = 7, latest_timestamp = 1060\<rparr>" 2
        demo_more]
    by (simp add: r tallies_def)
qed

text \<open>
  C4 as stated fails: after account 7 has voted for option 1 in a poll with two options,
  its second vote with option 3 fails with \<open>InvalidOption\<close>, and its second vote at the
  deadline fails with \<open>VotingEnded\<close>; neither is \<open>AlreadyVoted\<close>.
\<close>

theorem second_vote_counterexample:
  "vote \<lparr>sender = 7, latest_timestamp = 1050\<rparr> 1 (run demo_setup init) = Inr (run demo_calls init)
   \<and> vote \<lparr>sender = 7, latest_timestamp = 1060\<rparr> 3 (run demo_calls init) = Inl InvalidOption
   \<and> vote \<lparr>sender = 7, latest_timestamp = 1100\<rparr> 1 (run demo_calls init) = Inl VotingEnded"
  by (simp add: demo_setup_state demo_state vote_def incr_def)

text \<open>
  C5 (effect of create\_vote, I5). A successful \<open>create_vote\<close> stores every argument as
  given, the four option labels included, zeroes the four tallies, sets \<open>startsAt\<close> to the
  current time, \<open>endsAt\<close> to the argument and the status to 1, and touches neither the
  local state nor the slots. Then \<open>startsAt < endsAt\<close>, and after any calls \<open>cs\<close> both
  are as they were at creation, so \<open>startsAt < endsAt\<close> still holds.
\<close>

theorem create_vote_effect:
  assumes "create_vote t a s = Inr s'"
  shows "title s' = a_title a \<and> description s' = a_description a
    \<and> noOfOptions s' = a_noOfOptions a
    \<and> option1 s' = a_option1 a \<and> option2 s' = a_option2 a
    \<and> option3 s' = a_option3 a \<and> option4 s' = a_option4 a
    \<and> option1Votes s' = 0 \<and> option2Votes s' = 0 \<and> option3Votes s' = 0 \<and> option4Votes s' = 0
    \<and> startsAt s' = latest_timestamp t \<and> endsAt s' = a_endsAt a \<and> vote_status s' = 1
    \<and> localState s' = localState s \<and> opted s' = opted s
    \<and> startsAt s' < endsAt s'
    \<and> startsAt (run cs s') = startsAt s' \<and> endsAt (run cs s') = endsAt s'
    \<and> startsAt (run cs s') < endsAt (run cs s')"
proof -
  note c = create_vote_Inr [OF assms]
  have s': "vote_status s' = 1"
    by (simp add: c(5))
  have w: "startsAt s' < endsAt s'"
    using c(4) by (simp add: c(5))
  show ?thesis
    using created_run [OF s', of cs] w by (simp add: c(5))
qed

theorem create_vote_effect_witness:
  "startsAt (run demo_calls init) = 1000 \<and> endsAt (run demo_calls init) = 1100
   \<and> (\<exists>s'. create_vote \<lparr>sender = 1, latest_timestamp = 1000\<rparr> demo_args init = Inr s'
         \<and> option2 s' = ''No'' \<and> option4 s' = [] \<and> tallies s' = [0, 0, 0, 0])"
proof -
  obtain s' where c: "create_vote \<lparr>sender = 1, latest_timestamp = 1000\<rparr> demo_args init = Inr s'"
    by (simp add: create_vote_def demo_args_def init_def)
  have r: "run demo_calls init = run (tl demo_calls) s'"
    using c by (simp add: demo_calls_def demo_setup_def step_def)
  show ?thesis
    using create_vote_effect [OF c, of "tl demo_calls"] c r
    by (simp add: tallies_def demo_args_def)
qed

text \<open>
  C6 (option bound, P2). With no poll created and a deadline after the current time,
  \<open>create_vote\<close> succeeds when the option count is 2, 3 or 4, and for every other count
  fails with \<open>InvalidOptionCount\<close> and leaves the state as it was.
\<close>

theorem create_vote_option_bound:
  assumes "vote_status s = 0" and "latest_timestamp t < a_endsAt a"
  shows "(a_noOfOptions a \<in> {2, 3, 4} \<longrightarrow> (\<exists>s'. create_vote t a s = Inr s'))
    \<and> (a_noOfOptions a \<notin> {2, 3, 4} \<longrightarrow>
         create_vote t a s = Inl InvalidOptionCount \<and> step t (CreateVote a) s = s)"
  using assms word_2_4 [of "a_noOfOptions a"]
  by (auto simp: create_vote_def step_def)

theorem create_vote_option_bound_witness:
  "(\<exists>s'. create_vote \<lparr>sender = 1, latest_timestamp = 1000\<rparr> demo_args init = Inr s')
   \<and> create_vote \<lparr>sender = 1, latest_timestamp = 1000\<rparr> (demo_args\<lparr>a_noOfOptions := 5\<rparr>) init
       = Inl InvalidOptionCount
   \<and> create_vote \<lparr>sender = 1, latest_timestamp = 1000\<rparr> (demo_args\<lparr>a_noOfOptions := 1\<rparr>) init
       = Inl InvalidOptionCount"
  using create_vote_option_bound [of init "\<lparr>sender = 1, latest_timestamp = 1000\<rparr>" demo_args]
    create_vote_option_bound [of init "\<lparr>sender = 1, latest_timestamp = 1000\<rparr>" "demo_args\<lparr>a_noOfOptions := 5\<rparr>"]
    create_vote_option_bound [of init "\<lparr>sender = 1, latest_timestamp = 1000\<rparr>" "demo_args\<lparr>a_noOfOptions := 1\<rparr>"]
  by (simp add: init_def demo_args_def)

text \<open>
  C7 (the defensive branch is dead). In a reachable state \<open>noOfOptions\<close> is at most 4, so
  an option that passes the third \<open>assert\<close> of \<open>vote\<close> is 1, 2, 3 or 4, and no call of
  \<open>vote\<close> ends in \<open>op.exit(0)\<close>.
\<close>

theorem exit_branch_unreachable:
  assumes "reachable s"
  shows "noOfOptions s \<le> 4
    \<and> (1 \<le> opt \<and> opt \<le> noOfOptions s \<longrightarrow> opt = 1 \<or> opt = 2 \<or> opt = 3 \<or> opt = 4)
    \<and> vote t opt s \<noteq> Inl ExitZero"
proof -
  have n: "noOfOptions s \<le> 4"
    using reachable_invar [OF assms] by (auto simp: invar_def)
  have o: "opt = 1 \<or> opt = 2 \<or> opt = 3 \<or> opt = 4" if "1 \<le> opt" "opt \<le> noOfOptions s"
    using that n word_1_4 [of opt] by auto
  have "vote t opt s \<noteq> Inl ExitZero"
    using o by (auto simp: vote_def Let_def incr_def split: sum.splits)
  with n o show ?thesis by blast
qed

theorem exit_branch_unreachable_witness:
  "reachable (run demo_calls init) \<and> noOfOptions (run demo_calls init) = 2
   \<and> vote \<lparr>sender = 8, latest_timestamp = 1060\<rparr> 2 (run demo_setup init) \<noteq> Inl ExitZero
   \<and> vote \<lparr>sender = 8, latest_timestamp = 1060\<rparr> 5 (run demo_calls init) \<noteq> Inl ExitZero"
proof -
  have r: "reachable (run demo_calls init)" "reachable (run demo_setup init)"
    by (rule reachable_run [OF reach_init])+
  show ?thesis
    using r exit_branch_unreachable [OF r(1), of 5 "\<lparr>sender = 8, latest_timestamp = 1060\<rparr>"]
      exit_branch_unreachable [OF r(2), of 2 "\<lparr>sender = 8, latest_timestamp = 1060\<rparr>"]
    by (simp add: demo_state)
qed

text \<open>
  C8 (opt\_in is idempotent). \<open>opt_in\<close> never fails; a second \<open>opt_in\<close> by the same
  account changes nothing; \<open>opt_in\<close> keeps every account's recorded vote, the tallies and
  every field of the poll; and for an account that already holds a slot it returns the
  state it was given.
\<close>

theorem opt_in_idempotent:
  "(\<exists>s1. opt_in t s = Inr s1 \<and> opt_in t s1 = Inr s1
       \<and> localState s1 = localState s \<and> tallies s1 = tallies s
       \<and> title s1 = title s \<and> description s1 = description s
       \<and> noOfOptions s1 = noOfOptions s
       \<and> option1 s1 = option1 s \<and> option2 s1 = option2 s
       \<and> option3 s1 = option3 s \<and> option4 s1 = option4 s
       \<and> startsAt s1 = startsAt s \<and> endsAt s1 = endsAt s \<and> vote_status s1 = vote_status s)
   \<and> (sender t \<in> opted s \<longrightarrow> opt_in t s = Inr s)"
  by (auto simp: opt_in_def tallies_def insert_absorb)

theorem opt_in_idempotent_witness:
  "opt_in \<lparr>sender = 7, latest_timestamp = 1070\<rparr> (run demo_calls init) = Inr (run demo_calls init)
   \<and> localState (run demo_calls init) 7 = Some 1"
  using opt_in_idempotent [of "\<lparr>sender = 7, latest_timestamp = 1070\<rparr>" "run demo_calls init"]
  by (simp add: demo_state)

text \<open>
  C9 (no vote before creation). In a reachable state with status 0, \<open>endsAt\<close> is 0, so
  every \<open>vote\<close> fails at its first check, with \<open>VotingEnded\<close>, and leaves the state as it
  was.
\<close>

theorem vote_before_creation:
  assumes "reachable s" and "vote_status s = 0"
  shows "endsAt s = 0 \<and> vote t opt s = Inl VotingEnded \<and> step t (Vote opt) s = s"
proof -
  have "endsAt s = 0"
    using reachable_invar [OF assms(1)] assms(2) by (simp add: invar_def)
  then show ?thesis
    by (simp add: vote_def step_def)
qed

theorem vote_before_creation_witness:
  "reachable (step \<lparr>sender = 7, latest_timestamp = 10\<rparr> OptIn init)
   \<and> vote \<lparr>sender = 7, latest_timestamp = 0\<rparr> 1 (step \<lparr>sender = 7, latest_timestamp = 10\<rparr> OptIn init)
       = Inl VotingEnded"
proof -
  have r: "reachable (step \<lparr>sender = 7, latest_timestamp = 10\<rparr> OptIn init)"
    by (rule reach_step [OF reach_init])
  have v: "vote_status (step \<lparr>sender = 7, latest_timestamp = 10\<rparr> OptIn init) = 0"
    by (simp add: step_def opt_in_def init_def)
  show ?thesis
    using r vote_before_creation [OF r v, of "\<lparr>sender = 7, latest_timestamp = 0\<rparr>" 1] by simp
qed

text \<open>
  C10 (frame of a successful vote). A successful \<open>vote t opt\<close> has \<open>opt\<close> from 1 to 4,
  adds 1 to the tally at position \<open>opt\<close> (as numbers, without wrap-around) and leaves
  the other three as they were, records \<open>opt\<close> for the sender, and changes no other
  account's record, no slot and no field of the poll.
\<close>

theorem vote_frame:
  assumes "vote t opt s = Inr s'"
  shows "1 \<le> unat opt \<and> unat opt \<le> 4
    \<and> map unat (tallies s') =
        (map unat (tallies s))[unat opt - 1 := unat (tallies s ! (unat opt - 1)) + 1]
    \<and> localState s' (sender t) = Some opt
    \<and> (\<forall>a. a \<noteq> sender t \<longrightarrow> localState s' a = localState s a)
    \<and> opted s' = opted s
    \<and> title s' = title s \<and> description s' = description s
    \<and> noOfOptions s' = noOfOptions s
    \<and> option1 s' = option1 s \<and> option2 s' = option2 s
    \<and> option3 s' = option3 s \<and> option4 s' = option4 s
    \<and> startsAt s' = startsAt s \<and> endsAt s' = endsAt s \<and> vote_status s' = vote_status s"
proof -
  have "1 \<le> unat opt \<and> unat opt \<le> 4"
    using vote_Inr_pre(7) [OF assms] by auto
  then show ?thesis
    by (simp add: vote_Inr_frame [OF assms] vote_Inr_tallies [OF assms])
qed

theorem vote_frame_witness:
  "vote \<lparr>sender = 7, latest_timestamp = 1050\<rparr> 1 (run demo_setup init) = Inr (run demo_calls init)
   \<and> map unat (tallies (run demo_setup init)) = [0, 0, 0, 0]
   \<and> map unat (tallies (run demo_calls init)) = [1, 0, 0, 0]
   \<and> localState (run demo_calls init) 7 = Some 1"
proof -
  have v: "vote \<lparr>sender = 7, latest_timestamp = 1050\<rparr> 1 (run demo_setup init)
      = Inr (run demo_calls init)"
    by (simp add: demo_setup_state demo_state vote_def incr_def)
  show ?thesis
    using v vote_frame [OF v] by (simp add: demo_setup_state tallies_def)
qed

end
